theory Spec2Isabelle
  imports Main "HOL-Library.Word" "HOL-Library.Multiset"
begin

unbundle bit_operations_syntax

section \<open>The pipe of pipe.h\<close>

text \<open>
  A shallow embedding of the single-producer / multiple-consumer ring of \<^verbatim>\<open>pipe.h\<close>.
  The three operations are modelled as they run when no other thread touches the pipe
  between their first and their last access: every atomic load returns what the last
  store left, and the compare-exchange succeeds exactly when the flag holds the expected
  value (the memory orders play no role in such a run, and the weak compare-exchange is
  taken not to fail spuriously).
\<close>

subsection \<open>Constants\<close>

type_synonym u32 = "32 word"

text \<open>\<^verbatim>\<open>TSpipedata\<close> is \<^verbatim>\<open>unsigned int\<close>.\<close>

type_synonym TSpipedata = "32 word"

definition TS_PIPE_SIZE_LOG2 :: nat where
  "TS_PIPE_SIZE_LOG2 = 8"

text \<open>\<^verbatim>\<open>TS_PIPE_SIZE = 2 << TS_PIPE_SIZE_LOG2\<close>.\<close>

definition TS_PIPE_SIZE :: nat where
  "TS_PIPE_SIZE = push_bit TS_PIPE_SIZE_LOG2 2"

definition TS_PIPE_MASK :: u32 where
  "TS_PIPE_MASK = of_nat (TS_PIPE_SIZE - 1)"

definition TS_PIPE_READABLE :: u32 where
  "TS_PIPE_READABLE = 0x11111111"

definition TS_PIPE_WRITABLE :: u32 where
  "TS_PIPE_WRITABLE = 0x00000000"

definition TS_PIPE_INVALID :: u32 where
  "TS_PIPE_INVALID = 0xFFFFFFFF"

subsection \<open>The pipe\<close>

text \<open>
  \<^verbatim>\<open>struct TSpipe\<close>. The two arrays are lists; a pipe of the C type has both of length
  \<open>TS_PIPE_SIZE\<close> (\<open>pipe_sized\<close> below). The last field is not in the struct: it is a
  history variable that no operation reads, holding every store made to \<^verbatim>\<open>flags[]\<close>
  so far, oldest first, as (slot, value stored).
\<close>

record TSpipe =
  buffer :: "TSpipedata list"
  flags :: "u32 list"
  writeIndex :: u32
  readIndex :: u32
  readCount :: u32
  flagStores :: "(nat \<times> u32) list"

definition pipe_sized :: "TSpipe \<Rightarrow> bool" where
  "pipe_sized pipe \<longleftrightarrow>
     length (buffer pipe) = TS_PIPE_SIZE \<and> length (flags pipe) = TS_PIPE_SIZE"

text \<open>An access past the end of an array is an error of the model.\<close>

datatype error = OutOfBounds

definition buffer_load :: "TSpipe \<Rightarrow> u32 \<Rightarrow> error + TSpipedata" where
  "buffer_load pipe i =
     (if unat i < length (buffer pipe) then Inr (buffer pipe ! unat i) else Inl OutOfBounds)"

definition buffer_store :: "TSpipe \<Rightarrow> u32 \<Rightarrow> TSpipedata \<Rightarrow> error + TSpipe" where
  "buffer_store pipe i v =
     (if unat i < length (buffer pipe)
      then Inr (pipe\<lparr>buffer := (buffer pipe)[unat i := v]\<rparr>)
      else Inl OutOfBounds)"

text \<open>\<^verbatim>\<open>tsAtomicLoad_u32(&pipe->flags[i], order)\<close>.\<close>

definition flags_load :: "TSpipe \<Rightarrow> u32 \<Rightarrow> error + u32" where
  "flags_load pipe i =
     (if unat i < length (flags pipe) then Inr (flags pipe ! unat i) else Inl OutOfBounds)"

text \<open>\<^verbatim>\<open>tsAtomicStore_u32(&pipe->flags[i], v, order)\<close>.\<close>

definition flags_store :: "TSpipe \<Rightarrow> u32 \<Rightarrow> u32 \<Rightarrow> error + TSpipe" where
  "flags_store pipe i v =
     (if unat i < length (flags pipe)
      then Inr (pipe\<lparr>flags := (flags pipe)[unat i := v],
                     flagStores := flagStores pipe @ [(unat i, v)]\<rparr>)
      else Inl OutOfBounds)"

text \<open>
  \<^verbatim>\<open>tsAtomicCmpXchg_u32(&pipe->flags[i], &expected, &desired, 1, ...)\<close>: the flag becomes
  \<open>desired\<close> when it holds \<open>expected\<close>, and the call says whether it did.
\<close>

definition flags_cmpxchg :: "TSpipe \<Rightarrow> u32 \<Rightarrow> u32 \<Rightarrow> u32 \<Rightarrow> error + (bool \<times> TSpipe)" where
  "flags_cmpxchg pipe i expected desired =
     (case flags_load pipe i of
        Inl e \<Rightarrow> Inl e
      | Inr cur \<Rightarrow>
          if cur = expected
          then (case flags_store pipe i desired of
                  Inl e \<Rightarrow> Inl e
                | Inr pipe' \<Rightarrow> Inr (True, pipe'))
          else Inr (False, pipe))"

subsection \<open>Initialisation and the emptiness query\<close>

text \<open>
  \<^verbatim>\<open>tsPipeInit\<close>: \<^verbatim>\<open>memset\<close> of the whole buffer, then the three counters. The
  function does not touch \<^verbatim>\<open>flags[]\<close>.
\<close>

definition tsPipeInit :: "TSpipe \<Rightarrow> TSpipe" where
  "tsPipeInit pipe =
     pipe\<lparr>buffer := replicate TS_PIPE_SIZE 0, readIndex := 0, writeIndex := 0, readCount := 0\<rparr>"

text \<open>The test program's \<^verbatim>\<open>TSpipe pipe = {0};\<close>: an object with every byte zero.\<close>

definition zero_pipe :: TSpipe where
  "zero_pipe =
     \<lparr>buffer = replicate TS_PIPE_SIZE 0, flags = replicate TS_PIPE_SIZE 0,
      writeIndex = 0, readIndex = 0, readCount = 0, flagStores = []\<rparr>"

text \<open>A freshly initialised pipe, as the test program makes it: \<^verbatim>\<open>tsPipeInit(&pipe)\<close>.\<close>

definition fresh_pipe :: TSpipe where
  "fresh_pipe = tsPipeInit zero_pipe"

definition tsPipeIsEmpty :: "TSpipe \<Rightarrow> int" where
  "tsPipeIsEmpty pipe = (if writeIndex pipe - readCount pipe = 0 then 1 else 0)"

subsection \<open>The three operations\<close>

text \<open>
  How a read loop is left: by \<^verbatim>\<open>return 0\<close>, or by \<^verbatim>\<open>break\<close> with the slot whose flag
  the compare-exchange has just changed. Both carry the pipe as the loop leaves it.
\<close>

datatype loop_exit = Return0 TSpipe | Break u32 TSpipe

text \<open>
  The loop of \<^verbatim>\<open>tsPipeReaderTryReadBack\<close>; the arguments after the pipe are the locals
  \<^verbatim>\<open>readCount\<close> and \<^verbatim>\<open>readIndexToUse\<close>. The loop need not end, so not returning is
  the value \<open>None\<close>.
\<close>

partial_function (option) tsPipeReaderTryReadBack_loop ::
  "TSpipe \<Rightarrow> u32 \<Rightarrow> u32 \<Rightarrow> (error + loop_exit) option"
where
  "tsPipeReaderTryReadBack_loop pipe readCnt readIndexToUse =
     (let writeIdx = writeIndex pipe;
          numInPipe = writeIdx - readCnt
      in if 0 = numInPipe then Some (Inr (Return0 pipe))
         else
           let readIndexToUse' =
                 (if readIndexToUse \<ge> writeIdx then readIndex pipe else readIndexToUse);
               actualReadIndex = readIndexToUse' AND TS_PIPE_MASK
           in case flags_cmpxchg pipe actualReadIndex TS_PIPE_READABLE TS_PIPE_INVALID of
                Inl e \<Rightarrow> Some (Inl e)
              | Inr (success, pipe') \<Rightarrow>
                  if success then Some (Inr (Break actualReadIndex pipe'))
                  else tsPipeReaderTryReadBack_loop pipe' (readCount pipe')
                         (readIndexToUse' + 1))"

definition tsPipeReaderTryReadBack ::
  "TSpipe \<Rightarrow> TSpipedata \<Rightarrow> (error + (int \<times> TSpipedata \<times> TSpipe)) option"
where
  "tsPipeReaderTryReadBack pipe out =
     (case tsPipeReaderTryReadBack_loop pipe (readCount pipe) (readCount pipe) of
        None \<Rightarrow> None
      | Some (Inl e) \<Rightarrow> Some (Inl e)
      | Some (Inr (Return0 pipe')) \<Rightarrow> Some (Inr (0, out, pipe'))
      | Some (Inr (Break actualReadIndex pipe1)) \<Rightarrow>
          (let pipe2 = pipe1\<lparr>readCount := readCount pipe1 + 1\<rparr>
           in case buffer_load pipe2 actualReadIndex of
                Inl e \<Rightarrow> Some (Inl e)
              | Inr v \<Rightarrow>
                  (case flags_store pipe2 actualReadIndex TS_PIPE_WRITABLE of
                     Inl e \<Rightarrow> Some (Inl e)
                   | Inr pipe3 \<Rightarrow> Some (Inr (1, v, pipe3)))))"

text \<open>
  The loop of \<^verbatim>\<open>tsPipeWriterTryReadFront\<close>; the arguments after the pipe are the locals
  \<^verbatim>\<open>writeIndex\<close> and \<^verbatim>\<open>frontReadIndex\<close>.
\<close>

function tsPipeWriterTryReadFront_loop :: "TSpipe \<Rightarrow> u32 \<Rightarrow> u32 \<Rightarrow> error + loop_exit" where
  "tsPipeWriterTryReadFront_loop pipe writeIdx frontReadIndex =
     (let readCnt = readCount pipe;
          numInPipe = writeIdx - readCnt
      in if 0 = numInPipe then Inr (Return0 (pipe\<lparr>readIndex := readCnt\<rparr>))
         else
           let frontReadIndex' = frontReadIndex - 1;
               actualReadIndex = frontReadIndex' AND TS_PIPE_MASK
           in case flags_cmpxchg pipe actualReadIndex TS_PIPE_READABLE TS_PIPE_INVALID of
                Inl e \<Rightarrow> Inl e
              | Inr (success, pipe') \<Rightarrow>
                  if success then Inr (Break actualReadIndex pipe')
                  else if readIndex pipe' \<ge> frontReadIndex' then Inr (Return0 pipe')
                  else tsPipeWriterTryReadFront_loop pipe' writeIdx frontReadIndex')"
  by pat_completeness auto

termination
proof (relation "measure (\<lambda>(pipe, writeIdx, frontReadIndex). unat (frontReadIndex - 1))",
    goal_cases)
  case 1
  show ?case by simp
next
  case (2 pipe writeIdx frontReadIndex readCnt numInPipe frontReadIndex' actualReadIndex
      res success pipe')
  from 2 have "frontReadIndex' \<noteq> 0"
    by (auto simp: not_le word_less_nat_alt)
  then have "unat (frontReadIndex' - 1) < unat frontReadIndex'"
    by (simp add: unat_minus_one unat_gt_0)
  with 2 show ?case by simp
qed

definition tsPipeWriterTryReadFront ::
  "TSpipe \<Rightarrow> TSpipedata \<Rightarrow> error + (int \<times> TSpipedata \<times> TSpipe)"
where
  "tsPipeWriterTryReadFront pipe out =
     (let writeIdx = writeIndex pipe
      in case tsPipeWriterTryReadFront_loop pipe writeIdx writeIdx of
           Inl e \<Rightarrow> Inl e
         | Inr (Return0 pipe') \<Rightarrow> Inr (0, out, pipe')
         | Inr (Break actualReadIndex pipe1) \<Rightarrow>
             (case buffer_load pipe1 actualReadIndex of
                Inl e \<Rightarrow> Inl e
              | Inr v \<Rightarrow>
                  (case flags_store pipe1 actualReadIndex TS_PIPE_WRITABLE of
                     Inl e \<Rightarrow> Inl e
                   | Inr pipe2 \<Rightarrow> Inr (1, v, pipe2\<lparr>writeIndex := writeIdx - 1\<rparr>))))"

definition tsPipeWriterTryWriteFront :: "TSpipe \<Rightarrow> TSpipedata \<Rightarrow> error + (int \<times> TSpipe)" where
  "tsPipeWriterTryWriteFront pipe inp =
     (let writeIdx = writeIndex pipe;
          actualWriteIndex = writeIdx AND TS_PIPE_MASK
      in case flags_load pipe actualWriteIndex of
           Inl e \<Rightarrow> Inl e
         | Inr flag \<Rightarrow>
             if flag \<noteq> TS_PIPE_WRITABLE then Inr (0, pipe)
             else
               (case buffer_store pipe actualWriteIndex inp of
                  Inl e \<Rightarrow> Inl e
                | Inr pipe1 \<Rightarrow>
                    (case flags_store pipe1 actualWriteIndex TS_PIPE_READABLE of
                       Inl e \<Rightarrow> Inl e
                     | Inr pipe2 \<Rightarrow> Inr (1, pipe2\<lparr>writeIndex := writeIndex pipe2 + 1\<rparr>))))"

subsection \<open>Sequences of calls\<close>

text \<open>
  A call of one of the three operations, with the value passed in (for the reads: what the
  caller's \<^verbatim>\<open>out\<close> holds before the call), and what a call gave back: the return value
  and, for the reads, what \<^verbatim>\<open>out\<close> holds afterwards.
\<close>

datatype call = WriteFront TSpipedata | ReadFront TSpipedata | ReadBack TSpipedata

datatype event =
  WriteFrontRet TSpipedata int | ReadFrontRet int TSpipedata | ReadBackRet int TSpipedata

fun exec_call :: "call \<Rightarrow> TSpipe \<Rightarrow> (error + (event \<times> TSpipe)) option" where
  "exec_call (WriteFront v) pipe =
     (case tsPipeWriterTryWriteFront pipe v of
        Inl e \<Rightarrow> Some (Inl e)
      | Inr (r, pipe') \<Rightarrow> Some (Inr (WriteFrontRet v r, pipe')))"
| "exec_call (ReadFront out) pipe =
     (case tsPipeWriterTryReadFront pipe out of
        Inl e \<Rightarrow> Some (Inl e)
      | Inr (r, out', pipe') \<Rightarrow> Some (Inr (ReadFrontRet r out', pipe')))"
| "exec_call (ReadBack out) pipe =
     (case tsPipeReaderTryReadBack pipe out of
        None \<Rightarrow> None
      | Some (Inl e) \<Rightarrow> Some (Inl e)
      | Some (Inr (r, out', pipe')) \<Rightarrow> Some (Inr (ReadBackRet r out', pipe')))"

text \<open>The calls of a list one after the other, each on the pipe the one before left.\<close>

fun run :: "call list \<Rightarrow> TSpipe \<Rightarrow> (error + (event list \<times> TSpipe)) option" where
  "run [] pipe = Some (Inr ([], pipe))"
| "run (c # cs) pipe =
     (case exec_call c pipe of
        None \<Rightarrow> None
      | Some (Inl e) \<Rightarrow> Some (Inl e)
      | Some (Inr (ev, pipe')) \<Rightarrow>
          (case run cs pipe' of
             None \<Rightarrow> None
           | Some (Inl e) \<Rightarrow> Some (Inl e)
           | Some (Inr (evs, pipe'')) \<Rightarrow> Some (Inr (ev # evs, pipe''))))"

text \<open>The values of the successful writes, and the values the successful reads gave out.\<close>

fun written :: "event list \<Rightarrow> TSpipedata list" where
  "written [] = []"
| "written (WriteFrontRet v r # evs) = (if r = 1 then v # written evs else written evs)"
| "written (ev # evs) = written evs"

fun delivered :: "event list \<Rightarrow> TSpipedata list" where
  "delivered [] = []"
| "delivered (ReadFrontRet r v # evs) = (if r = 1 then v # delivered evs else delivered evs)"
| "delivered (ReadBackRet r v # evs) = (if r = 1 then v # delivered evs else delivered evs)"
| "delivered (ev # evs) = delivered evs"

subsection \<open>The history of a flag\<close>

text \<open>The values stored to the flag of one slot, oldest first.\<close>

definition slot_stores :: "nat \<Rightarrow> (nat \<times> u32) list \<Rightarrow> u32 list" where
  "slot_stores s stores = map snd (filter (\<lambda>(i, v). i = s) stores)"

text \<open>The three transitions of a flag: writable to readable to in flight to writable.\<close>

definition flag_transition :: "u32 \<Rightarrow> u32 \<Rightarrow> bool" where
  "flag_transition cur new \<longleftrightarrow>
     (cur = TS_PIPE_WRITABLE \<and> new = TS_PIPE_READABLE) \<or>
     (cur = TS_PIPE_READABLE \<and> new = TS_PIPE_INVALID) \<or>
     (cur = TS_PIPE_INVALID \<and> new = TS_PIPE_WRITABLE)"

text \<open>A flag that holds \<open>cur\<close> takes the values of the list in turn, each by a transition.\<close>

fun flag_word :: "u32 \<Rightarrow> u32 list \<Rightarrow> bool" where
  "flag_word cur [] = True"
| "flag_word cur (v # vs) = (flag_transition cur v \<and> flag_word v vs)"

subsection \<open>Auxiliary notions for the proofs\<close>

text \<open>
  A store to one flag; a slot taken by a read (the compare-exchange, then the store that
  makes the slot writable again); the slots holding a published payload and the payloads
  in them; what holds of a pipe between two calls; and what one call can do to a pipe,
  with the values it accepted and the values it gave out.
\<close>

definition set_flag :: "TSpipe \<Rightarrow> nat \<Rightarrow> u32 \<Rightarrow> TSpipe" where
  "set_flag pipe a v =
     pipe\<lparr>flags := (flags pipe)[a := v], flagStores := flagStores pipe @ [(a, v)]\<rparr>"

definition take_slot :: "TSpipe \<Rightarrow> nat \<Rightarrow> TSpipe" where
  "take_slot pipe a = set_flag (set_flag pipe a TS_PIPE_INVALID) a TS_PIPE_WRITABLE"

definition readable_slots :: "TSpipe \<Rightarrow> nat set" where
  "readable_slots pipe = {s. s < TS_PIPE_SIZE \<and> flags pipe ! s = TS_PIPE_READABLE}"

definition in_pipe :: "TSpipe \<Rightarrow> TSpipedata multiset" where
  "in_pipe pipe = image_mset ((!) (buffer pipe)) (mset_set (readable_slots pipe))"

definition quiescent :: "TSpipe \<Rightarrow> bool" where
  "quiescent pipe \<longleftrightarrow>
     pipe_sized pipe \<and>
     (\<forall>s<TS_PIPE_SIZE. flags pipe ! s = TS_PIPE_WRITABLE \<or> flags pipe ! s = TS_PIPE_READABLE) \<and>
     unat (writeIndex pipe - readCount pipe) = card (readable_slots pipe)"

definition flag_history_ok :: "TSpipe \<Rightarrow> bool" where
  "flag_history_ok pipe \<longleftrightarrow>
     (\<forall>s<TS_PIPE_SIZE.
        flag_word TS_PIPE_WRITABLE (slot_stores s (flagStores pipe)) \<and>
        last (TS_PIPE_WRITABLE # slot_stores s (flagStores pipe)) = flags pipe ! s)"

inductive effect :: "TSpipe \<Rightarrow> TSpipedata list \<Rightarrow> TSpipedata list \<Rightarrow> TSpipe \<Rightarrow> bool" where
  idle: "effect pipe [] [] pipe"
| hint: "effect pipe [] [] (pipe\<lparr>readIndex := r\<rparr>)"
| put: "a < TS_PIPE_SIZE \<Longrightarrow> flags pipe ! a = TS_PIPE_WRITABLE \<Longrightarrow>
    effect pipe [v] []
      ((set_flag (pipe\<lparr>buffer := (buffer pipe)[a := v]\<rparr>) a TS_PIPE_READABLE)
         \<lparr>writeIndex := writeIndex pipe + 1\<rparr>)"
| take_back: "a < TS_PIPE_SIZE \<Longrightarrow> flags pipe ! a = TS_PIPE_READABLE \<Longrightarrow>
    effect pipe [] [buffer pipe ! a] ((take_slot pipe a)\<lparr>readCount := readCount pipe + 1\<rparr>)"
| take_front: "a < TS_PIPE_SIZE \<Longrightarrow> flags pipe ! a = TS_PIPE_READABLE \<Longrightarrow>
    effect pipe [] [buffer pipe ! a] ((take_slot pipe a)\<lparr>writeIndex := writeIndex pipe - 1\<rparr>)"

text \<open>The pipe after the values of a list have been written to a fresh pipe.\<close>

definition filled :: "TSpipedata list \<Rightarrow> TSpipe" where
  "filled vs =
     fresh_pipe\<lparr>buffer := vs @ replicate (TS_PIPE_SIZE - length vs) 0,
                flags := replicate (length vs) TS_PIPE_READABLE @
                         replicate (TS_PIPE_SIZE - length vs) TS_PIPE_WRITABLE,
                writeIndex := of_nat (length vs),
                flagStores := map (\<lambda>i. (i, TS_PIPE_READABLE)) [0..<length vs]\<rparr>"

declare tsPipeWriterTryReadFront_loop.simps [simp del]

section \<open>Properties\<close>

subsection \<open>Constants, array accesses and what one call does\<close>

lemma TS_PIPE_SIZE_eq: "TS_PIPE_SIZE = 512"
  by (simp add: TS_PIPE_SIZE_def TS_PIPE_SIZE_LOG2_def)

lemma TS_PIPE_MASK_eq: "TS_PIPE_MASK = 511"
  by (simp add: TS_PIPE_MASK_def TS_PIPE_SIZE_eq)

lemma slot_less: "unat (i AND TS_PIPE_MASK) < TS_PIPE_SIZE"
proof -
  have "unat (i AND 511) \<le> unat (511 :: u32)"
    by (rule word_and_le1 [THEN word_le_nat_alt [THEN iffD1]])
  then show ?thesis
    by (simp add: TS_PIPE_MASK_eq TS_PIPE_SIZE_eq)
qed

lemma flag_values_distinct:
  "TS_PIPE_WRITABLE \<noteq> TS_PIPE_READABLE" "TS_PIPE_READABLE \<noteq> TS_PIPE_INVALID"
  "TS_PIPE_INVALID \<noteq> TS_PIPE_WRITABLE" "TS_PIPE_READABLE \<noteq> TS_PIPE_WRITABLE"
  "TS_PIPE_INVALID \<noteq> TS_PIPE_READABLE" "TS_PIPE_WRITABLE \<noteq> TS_PIPE_INVALID"
  by (simp_all add: TS_PIPE_WRITABLE_def TS_PIPE_READABLE_def TS_PIPE_INVALID_def)

lemma pipe_sized_set_flag [simp]: "pipe_sized (set_flag pipe a v) = pipe_sized pipe"
  by (simp add: pipe_sized_def set_flag_def)

lemma flags_load_slot:
  "pipe_sized pipe \<Longrightarrow>
   flags_load pipe (i AND TS_PIPE_MASK) = Inr (flags pipe ! unat (i AND TS_PIPE_MASK))"
  using slot_less [of i] by (simp add: flags_load_def pipe_sized_def)

lemma flags_store_slot:
  "pipe_sized pipe \<Longrightarrow>
   flags_store pipe (i AND TS_PIPE_MASK) v = Inr (set_flag pipe (unat (i AND TS_PIPE_MASK)) v)"
  using slot_less [of i] by (simp add: flags_store_def pipe_sized_def set_flag_def)

lemma buffer_load_slot:
  "pipe_sized pipe \<Longrightarrow>
   buffer_load pipe (i AND TS_PIPE_MASK) = Inr (buffer pipe ! unat (i AND TS_PIPE_MASK))"
  using slot_less [of i] by (simp add: buffer_load_def pipe_sized_def)

lemma buffer_store_slot:
  "pipe_sized pipe \<Longrightarrow>
   buffer_store pipe (i AND TS_PIPE_MASK) v =
     Inr (pipe\<lparr>buffer := (buffer pipe)[unat (i AND TS_PIPE_MASK) := v]\<rparr>)"
  using slot_less [of i] by (simp add: buffer_store_def pipe_sized_def)

lemma flags_cmpxchg_slot:
  "pipe_sized pipe \<Longrightarrow>
   flags_cmpxchg pipe (i AND TS_PIPE_MASK) expected desired =
     (if flags pipe ! unat (i AND TS_PIPE_MASK) = expected
      then Inr (True, set_flag pipe (unat (i AND TS_PIPE_MASK)) desired)
      else Inr (False, pipe))"
  by (simp add: flags_cmpxchg_def flags_load_slot flags_store_slot)

lemma tsPipeWriterTryWriteFront_eq:
  assumes "pipe_sized pipe"
  shows "tsPipeWriterTryWriteFront pipe v =
     (if flags pipe ! unat (writeIndex pipe AND TS_PIPE_MASK) \<noteq> TS_PIPE_WRITABLE
      then Inr (0, pipe)
      else Inr (1, (set_flag (pipe\<lparr>buffer := (buffer pipe)[unat (writeIndex pipe AND TS_PIPE_MASK) := v]\<rparr>)
                     (unat (writeIndex pipe AND TS_PIPE_MASK)) TS_PIPE_READABLE)
                   \<lparr>writeIndex := writeIndex pipe + 1\<rparr>))"
proof -
  have "pipe_sized (pipe\<lparr>buffer := (buffer pipe)[unat (writeIndex pipe AND TS_PIPE_MASK) := v]\<rparr>)"
    using assms by (simp add: pipe_sized_def)
  then show ?thesis
    using assms
    by (simp add: tsPipeWriterTryWriteFront_def Let_def flags_load_slot buffer_store_slot
        flags_store_slot set_flag_def)
qed

text \<open>What the loop of the tail read can leave.\<close>

lemma tsPipeReaderTryReadBack_loop_cases:
  assumes "tsPipeReaderTryReadBack_loop pipe readCnt i = Some res" and "pipe_sized pipe"
  shows "res = Inr (Return0 pipe) \<or>
     (\<exists>j. flags pipe ! unat (j AND TS_PIPE_MASK) = TS_PIPE_READABLE \<and>
          res = Inr (Break (j AND TS_PIPE_MASK)
                  (set_flag pipe (unat (j AND TS_PIPE_MASK)) TS_PIPE_INVALID)))"
proof -
  let ?Q = "\<lambda>pipe res. res = Inr (Return0 pipe) \<or>
     (\<exists>j. flags pipe ! unat (j AND TS_PIPE_MASK) = TS_PIPE_READABLE \<and>
          res = Inr (Break (j AND TS_PIPE_MASK)
                  (set_flag pipe (unat (j AND TS_PIPE_MASK)) TS_PIPE_INVALID)))"
  have "pipe_sized pipe \<longrightarrow> ?Q pipe res"
  proof (rule tsPipeReaderTryReadBack_loop.raw_induct
      [where P = "\<lambda>pipe readCnt i res. pipe_sized pipe \<longrightarrow> ?Q pipe res", OF _ assms(1)],
      rule impI)
    fix loop pipe readCnt i res
    assume IH: "\<And>pipe readCnt i res. loop pipe readCnt i = Some res \<Longrightarrow>
        pipe_sized pipe \<longrightarrow> ?Q pipe res"
      and body: "(let writeIdx = writeIndex pipe; numInPipe = writeIdx - readCnt
        in if 0 = numInPipe then Some (Inr (Return0 pipe))
           else let readIndexToUse' = if writeIdx \<le> i then readIndex pipe else i;
                    actualReadIndex = readIndexToUse' AND TS_PIPE_MASK
                in case flags_cmpxchg pipe actualReadIndex TS_PIPE_READABLE TS_PIPE_INVALID of
                     Inl e \<Rightarrow> Some (Inl e)
                   | Inr (success, pipe') \<Rightarrow>
                       if success then Some (Inr (Break actualReadIndex pipe'))
                       else loop pipe' (readCount pipe') (readIndexToUse' + 1)) = Some res"
      and sized: "pipe_sized pipe"
    show "?Q pipe res"
    proof (cases "writeIndex pipe - readCnt = 0")
      case True
      with body show ?thesis by simp
    next
      case False
      define j where "j = (if writeIndex pipe \<le> i then readIndex pipe else i)"
      show ?thesis
      proof (cases "flags pipe ! unat (j AND TS_PIPE_MASK) = TS_PIPE_READABLE")
        case True
        with body sized False have "res = Inr (Break (j AND TS_PIPE_MASK)
                    (set_flag pipe (unat (j AND TS_PIPE_MASK)) TS_PIPE_INVALID))"
          by (simp add: Let_def flags_cmpxchg_slot flip: j_def)
        with True show ?thesis by blast
      next
        case notR: False
        with body sized False have "loop pipe (readCount pipe) (j + 1) = Some res"
          by (simp add: Let_def flags_cmpxchg_slot flip: j_def)
        from IH [OF this] sized show ?thesis by blast
      qed
    qed
  qed
  with assms(2) show ?thesis by blast
qed

lemma tsPipeReaderTryReadBack_cases:
  assumes "tsPipeReaderTryReadBack pipe out = Some res" and "pipe_sized pipe"
  shows "res = Inr (0, out, pipe) \<or>
     (\<exists>j. flags pipe ! unat (j AND TS_PIPE_MASK) = TS_PIPE_READABLE \<and>
          res = Inr (1, buffer pipe ! unat (j AND TS_PIPE_MASK),
                  (take_slot pipe (unat (j AND TS_PIPE_MASK)))
                    \<lparr>readCount := readCount pipe + 1\<rparr>))"
proof -
  from assms(1) obtain lres where
    loop: "tsPipeReaderTryReadBack_loop pipe (readCount pipe) (readCount pipe) = Some lres"
    by (auto simp: tsPipeReaderTryReadBack_def split: option.splits)
  from tsPipeReaderTryReadBack_loop_cases [OF loop assms(2)]
  show ?thesis
  proof
    assume "lres = Inr (Return0 pipe)"
    with loop assms(1) show ?thesis
      by (simp add: tsPipeReaderTryReadBack_def)
  next
    assume "\<exists>j. flags pipe ! unat (j AND TS_PIPE_MASK) = TS_PIPE_READABLE \<and>
          lres = Inr (Break (j AND TS_PIPE_MASK)
                  (set_flag pipe (unat (j AND TS_PIPE_MASK)) TS_PIPE_INVALID))"
    then obtain j where j: "flags pipe ! unat (j AND TS_PIPE_MASK) = TS_PIPE_READABLE"
      and lres: "lres = Inr (Break (j AND TS_PIPE_MASK)
                  (set_flag pipe (unat (j AND TS_PIPE_MASK)) TS_PIPE_INVALID))"
      by blast
    let ?a = "unat (j AND TS_PIPE_MASK)"
    have sized: "pipe_sized ((set_flag pipe ?a TS_PIPE_INVALID)
        \<lparr>readCount := readCount (set_flag pipe ?a TS_PIPE_INVALID) + 1\<rparr>)"
      using assms(2) by (simp add: pipe_sized_def set_flag_def)
    have "res = Inr (1, buffer pipe ! ?a, (take_slot pipe ?a)\<lparr>readCount := readCount pipe + 1\<rparr>)"
      using assms(1) loop lres
      by (simp add: tsPipeReaderTryReadBack_def Let_def buffer_load_slot [OF sized]
          flags_store_slot [OF sized] take_slot_def)
        (auto simp add: set_flag_def)
    with j show ?thesis by blast
  qed
qed

text \<open>What the loop of the front read leaves.\<close>

lemma tsPipeWriterTryReadFront_loop_cases:
  assumes "pipe_sized pipe"
  shows "(writeIdx - readCount pipe = 0 \<and>
      tsPipeWriterTryReadFront_loop pipe writeIdx f =
        Inr (Return0 (pipe\<lparr>readIndex := readCount pipe\<rparr>))) \<or>
     (writeIdx - readCount pipe \<noteq> 0 \<and>
      (tsPipeWriterTryReadFront_loop pipe writeIdx f = Inr (Return0 pipe) \<or>
       (\<exists>j. flags pipe ! unat (j AND TS_PIPE_MASK) = TS_PIPE_READABLE \<and>
            tsPipeWriterTryReadFront_loop pipe writeIdx f =
              Inr (Break (j AND TS_PIPE_MASK)
                (set_flag pipe (unat (j AND TS_PIPE_MASK)) TS_PIPE_INVALID)))))"
  using assms
proof (induction pipe writeIdx f rule: tsPipeWriterTryReadFront_loop.induct)
  case (1 pipe writeIdx f)
  note sized = \<open>pipe_sized pipe\<close>
  show ?case
  proof (cases "writeIdx - readCount pipe = 0")
    case True
    then show ?thesis
      by (subst tsPipeWriterTryReadFront_loop.simps) simp
  next
    case nonempty: False
    show ?thesis
    proof (cases "flags pipe ! unat (f - 1 AND TS_PIPE_MASK) = TS_PIPE_READABLE")
      case True
      then have "tsPipeWriterTryReadFront_loop pipe writeIdx f =
          Inr (Break (f - 1 AND TS_PIPE_MASK)
            (set_flag pipe (unat (f - 1 AND TS_PIPE_MASK)) TS_PIPE_INVALID))"
        using nonempty sized
        by (subst tsPipeWriterTryReadFront_loop.simps)
          (simp add: Let_def flags_cmpxchg_slot)
      with True nonempty show ?thesis by blast
    next
      case notR: False
      show ?thesis
      proof (cases "f - 1 \<le> readIndex pipe")
        case True
        then have "tsPipeWriterTryReadFront_loop pipe writeIdx f = Inr (Return0 pipe)"
          using nonempty sized notR
          by (subst tsPipeWriterTryReadFront_loop.simps)
            (simp add: Let_def flags_cmpxchg_slot)
        with nonempty show ?thesis by blast
      next
        case False
        have step: "tsPipeWriterTryReadFront_loop pipe writeIdx f =
            tsPipeWriterTryReadFront_loop pipe writeIdx (f - 1)"
          using nonempty sized notR False
          by (subst tsPipeWriterTryReadFront_loop.simps)
            (simp add: Let_def flags_cmpxchg_slot)
        have "flags_cmpxchg pipe (f - 1 AND TS_PIPE_MASK) TS_PIPE_READABLE TS_PIPE_INVALID =
            Inr (False, pipe)"
          using sized notR by (simp add: flags_cmpxchg_slot)
        from "1.IH" [OF refl refl _ refl refl this refl _ _ sized] nonempty False
        show ?thesis
          unfolding step by auto
      qed
    qed
  qed
qed

lemma tsPipeWriterTryReadFront_cases:
  assumes "pipe_sized pipe"
  shows "(writeIndex pipe - readCount pipe = 0 \<and>
      tsPipeWriterTryReadFront pipe out = Inr (0, out, pipe\<lparr>readIndex := readCount pipe\<rparr>)) \<or>
     (writeIndex pipe - readCount pipe \<noteq> 0 \<and>
      (tsPipeWriterTryReadFront pipe out = Inr (0, out, pipe) \<or>
       (\<exists>j. flags pipe ! unat (j AND TS_PIPE_MASK) = TS_PIPE_READABLE \<and>
            tsPipeWriterTryReadFront pipe out =
              Inr (1, buffer pipe ! unat (j AND TS_PIPE_MASK),
                (take_slot pipe (unat (j AND TS_PIPE_MASK)))
                  \<lparr>writeIndex := writeIndex pipe - 1\<rparr>))))"
proof -
  have break: "tsPipeWriterTryReadFront pipe out =
      Inr (1, buffer pipe ! unat (j AND TS_PIPE_MASK),
        (take_slot pipe (unat (j AND TS_PIPE_MASK)))\<lparr>writeIndex := writeIndex pipe - 1\<rparr>)"
    if "tsPipeWriterTryReadFront_loop pipe (writeIndex pipe) (writeIndex pipe) =
      Inr (Break (j AND TS_PIPE_MASK)
        (set_flag pipe (unat (j AND TS_PIPE_MASK)) TS_PIPE_INVALID))" for j
  proof -
    have sized: "pipe_sized (set_flag pipe (unat (j AND TS_PIPE_MASK)) TS_PIPE_INVALID)"
      using assms by simp
    show ?thesis
      using that
      by (simp add: tsPipeWriterTryReadFront_def Let_def buffer_load_slot [OF sized]
          flags_store_slot [OF sized] take_slot_def)
        (simp add: set_flag_def)
  qed
  have ret0: "tsPipeWriterTryReadFront pipe out = Inr (0, out, pipe')"
    if "tsPipeWriterTryReadFront_loop pipe (writeIndex pipe) (writeIndex pipe) =
      Inr (Return0 pipe')" for pipe'
    using that by (simp add: tsPipeWriterTryReadFront_def)
  from tsPipeWriterTryReadFront_loop_cases [OF assms, of "writeIndex pipe" "writeIndex pipe"]
  show ?thesis
    using ret0 break by blast
qed

lemma exec_call_effect:
  assumes "exec_call c pipe = Some (Inr (ev, pipe'))" and "pipe_sized pipe"
  shows "effect pipe (written [ev]) (delivered [ev]) pipe'"
proof (cases c)
  case (WriteFront v)
  show ?thesis
  proof (cases "flags pipe ! unat (writeIndex pipe AND TS_PIPE_MASK) = TS_PIPE_WRITABLE")
    case True
    with assms WriteFront show ?thesis
      by (auto simp: tsPipeWriterTryWriteFront_eq intro!: effect.put slot_less)
  next
    case False
    with assms WriteFront show ?thesis
      by (auto simp: tsPipeWriterTryWriteFront_eq intro: effect.idle)
  qed
next
  case (ReadFront out)
  from tsPipeWriterTryReadFront_cases [OF assms(2), of out] assms(1) ReadFront
  show ?thesis
    by (elim disjE conjE exE)
      (auto intro: effect.idle effect.hint intro!: effect.take_front slot_less)
next
  case (ReadBack out)
  with assms(1) obtain res where res: "tsPipeReaderTryReadBack pipe out = Some res"
    by (auto split: option.splits)
  from tsPipeReaderTryReadBack_cases [OF res assms(2)] assms(1) ReadBack res
  show ?thesis
    by (elim disjE conjE exE) (auto intro: effect.idle intro!: effect.take_back slot_less)
qed

subsection \<open>Counting\<close>

lemma readable_slots_bounded: "readable_slots pipe \<subseteq> {..<TS_PIPE_SIZE}"
  by (auto simp: readable_slots_def)

lemma finite_readable_slots [simp]: "finite (readable_slots pipe)"
  by (rule finite_subset [OF readable_slots_bounded]) simp

lemma card_readable_slots: "card (readable_slots pipe) \<le> TS_PIPE_SIZE"
  using card_mono [OF _ readable_slots_bounded, of pipe] by simp

lemma readable_slots_put:
  assumes "a < TS_PIPE_SIZE" and "length (flags pipe) = TS_PIPE_SIZE"
    and "flags pipe' = (flags pipe)[a := TS_PIPE_READABLE]"
  shows "readable_slots pipe' = insert a (readable_slots pipe)"
  using assms by (auto simp: readable_slots_def nth_list_update)

lemma readable_slots_take:
  assumes "a < TS_PIPE_SIZE" and "length (flags pipe) = TS_PIPE_SIZE"
    and "flags pipe' = (flags pipe)[a := TS_PIPE_WRITABLE]"
  shows "readable_slots pipe' = readable_slots pipe - {a}"
  using assms flag_values_distinct by (auto simp: readable_slots_def nth_list_update)

lemma unat_succ_count:
  fixes x :: u32
  assumes "unat x \<le> TS_PIPE_SIZE"
  shows "unat (x + 1) = Suc (unat x)"
proof -
  have "unat x + unat (1 :: u32) < 2 ^ LENGTH(32)"
    using assms by (simp add: TS_PIPE_SIZE_eq)
  then have "unat (x + 1) = unat x + unat (1 :: u32)"
    by (simp only: unat_add_lem [THEN iffD1])
  then show ?thesis by simp
qed

lemma unat_pred_count:
  fixes x :: u32
  assumes "0 < unat x"
  shows "unat (x - 1) = unat x - 1"
  using assms by (simp add: unat_minus_one unat_gt_0)

lemma effect_quiescent:
  assumes "effect pipe ws ds pipe'" and "quiescent pipe"
  shows "quiescent pipe' \<and> in_pipe pipe + mset ws = in_pipe pipe' + mset ds"
  using assms
proof (induction rule: effect.induct)
  case (idle pipe)
  then show ?case by simp
next
  case (hint pipe r)
  then show ?case
    by (simp add: quiescent_def pipe_sized_def readable_slots_def in_pipe_def)
next
  case (put a pipe v)
  let ?p' = "(set_flag (pipe\<lparr>buffer := (buffer pipe)[a := v]\<rparr>) a TS_PIPE_READABLE)
         \<lparr>writeIndex := writeIndex pipe + 1\<rparr>"
  from put have len: "length (flags pipe) = TS_PIPE_SIZE" "length (buffer pipe) = TS_PIPE_SIZE"
    by (simp_all add: quiescent_def pipe_sized_def)
  have slots: "readable_slots ?p' = insert a (readable_slots pipe)"
    by (rule readable_slots_put [OF put(1) len(1)]) (simp add: set_flag_def)
  have notin: "a \<notin> readable_slots pipe"
    using put(2) flag_values_distinct by (simp add: readable_slots_def)
  have card': "card (readable_slots ?p') = Suc (card (readable_slots pipe))"
    using notin by (simp add: slots)
  have count: "unat (writeIndex pipe - readCount pipe) = card (readable_slots pipe)"
    using put(3) by (simp add: quiescent_def)
  have eq: "writeIndex pipe + 1 - readCount pipe = (writeIndex pipe - readCount pipe) + 1"
    by simp
  have "unat ((writeIndex pipe - readCount pipe) + 1) = Suc (card (readable_slots pipe))"
    using unat_succ_count [of "writeIndex pipe - readCount pipe"] count
      card_readable_slots [of pipe]
    by simp
  then have "unat (writeIndex pipe + 1 - readCount pipe) = Suc (card (readable_slots pipe))"
    by (simp only: eq)
  moreover have "writeIndex ?p' = writeIndex pipe + 1" "readCount ?p' = readCount pipe"
    by (simp_all add: set_flag_def)
  ultimately have count': "unat (writeIndex ?p' - readCount ?p') = card (readable_slots ?p')"
    by (simp only: card')
  have fl: "\<forall>s<TS_PIPE_SIZE. flags ?p' ! s = TS_PIPE_WRITABLE \<or> flags ?p' ! s = TS_PIPE_READABLE"
    using put(1,3) len by (auto simp: quiescent_def set_flag_def nth_list_update)
  have sized: "pipe_sized ?p'"
    using len by (simp add: pipe_sized_def set_flag_def)
  have "image_mset ((!) ((buffer pipe)[a := v])) (mset_set (readable_slots pipe)) =
      image_mset ((!) (buffer pipe)) (mset_set (readable_slots pipe))"
    using notin by (intro image_mset_cong) (metis finite_readable_slots finite_set_mset_mset_set nth_list_update_neq)
  then have "in_pipe ?p' = add_mset v (in_pipe pipe)"
    using notin put(1) len(2) by (simp add: in_pipe_def slots) (simp add: set_flag_def)
  with sized fl count' show ?case
    by (simp add: quiescent_def)
next
  case (take_back a pipe)
  let ?p' = "(take_slot pipe a)\<lparr>readCount := readCount pipe + 1\<rparr>"
  from take_back have len: "length (flags pipe) = TS_PIPE_SIZE" "length (buffer pipe) = TS_PIPE_SIZE"
    by (simp_all add: quiescent_def pipe_sized_def)
  have slots: "readable_slots ?p' = readable_slots pipe - {a}"
    by (rule readable_slots_take [OF take_back(1) len(1)]) (simp add: take_slot_def set_flag_def)
  have isin: "a \<in> readable_slots pipe"
    using take_back(1,2) by (simp add: readable_slots_def)
  then have pos: "0 < card (readable_slots pipe)"
    by (auto simp: card_gt_0_iff)
  have card': "card (readable_slots ?p') = card (readable_slots pipe) - 1"
    using isin by (simp add: slots)
  have count: "unat (writeIndex pipe - readCount pipe) = card (readable_slots pipe)"
    using take_back(3) by (simp add: quiescent_def)
  have eq: "writeIndex pipe - (readCount pipe + 1) = (writeIndex pipe - readCount pipe) - 1"
    by simp
  have "unat ((writeIndex pipe - readCount pipe) - 1) = card (readable_slots pipe) - 1"
    using unat_pred_count [of "writeIndex pipe - readCount pipe"] count pos by simp
  then have "unat (writeIndex pipe - (readCount pipe + 1)) = card (readable_slots pipe) - 1"
    by (simp only: eq)
  moreover have "writeIndex ?p' = writeIndex pipe" "readCount ?p' = readCount pipe + 1"
    by (simp_all add: take_slot_def set_flag_def)
  ultimately have count': "unat (writeIndex ?p' - readCount ?p') = card (readable_slots ?p')"
    by (simp only: card')
  have fl: "\<forall>s<TS_PIPE_SIZE. flags ?p' ! s = TS_PIPE_WRITABLE \<or> flags ?p' ! s = TS_PIPE_READABLE"
    using take_back(1,3) len by (auto simp: quiescent_def take_slot_def set_flag_def nth_list_update)
  have sized: "pipe_sized ?p'"
    using len by (simp add: pipe_sized_def take_slot_def set_flag_def)
  have "buffer ?p' = buffer pipe"
    by (simp add: take_slot_def set_flag_def)
  then have "in_pipe pipe = add_mset (buffer pipe ! a) (in_pipe ?p')"
    using isin by (simp add: in_pipe_def slots mset_set.remove)
  with sized fl count' show ?case
    by (simp add: quiescent_def)
next
  case (take_front a pipe)
  let ?p' = "(take_slot pipe a)\<lparr>writeIndex := writeIndex pipe - 1\<rparr>"
  from take_front have len: "length (flags pipe) = TS_PIPE_SIZE" "length (buffer pipe) = TS_PIPE_SIZE"
    by (simp_all add: quiescent_def pipe_sized_def)
  have slots: "readable_slots ?p' = readable_slots pipe - {a}"
    by (rule readable_slots_take [OF take_front(1) len(1)]) (simp add: take_slot_def set_flag_def)
  have isin: "a \<in> readable_slots pipe"
    using take_front(1,2) by (simp add: readable_slots_def)
  then have pos: "0 < card (readable_slots pipe)"
    by (auto simp: card_gt_0_iff)
  have card': "card (readable_slots ?p') = card (readable_slots pipe) - 1"
    using isin by (simp add: slots)
  have count: "unat (writeIndex pipe - readCount pipe) = card (readable_slots pipe)"
    using take_front(3) by (simp add: quiescent_def)
  have eq: "writeIndex pipe - 1 - readCount pipe = (writeIndex pipe - readCount pipe) - 1"
    by simp
  have "unat ((writeIndex pipe - readCount pipe) - 1) = card (readable_slots pipe) - 1"
    using unat_pred_count [of "writeIndex pipe - readCount pipe"] count pos by simp
  then have "unat (writeIndex pipe - 1 - readCount pipe) = card (readable_slots pipe) - 1"
    by (simp only: eq)
  moreover have "writeIndex ?p' = writeIndex pipe - 1" "readCount ?p' = readCount pipe"
    by (simp_all add: take_slot_def set_flag_def)
  ultimately have count': "unat (writeIndex ?p' - readCount ?p') = card (readable_slots ?p')"
    by (simp only: card')
  have fl: "\<forall>s<TS_PIPE_SIZE. flags ?p' ! s = TS_PIPE_WRITABLE \<or> flags ?p' ! s = TS_PIPE_READABLE"
    using take_front(1,3) len by (auto simp: quiescent_def take_slot_def set_flag_def nth_list_update)
  have sized: "pipe_sized ?p'"
    using len by (simp add: pipe_sized_def take_slot_def set_flag_def)
  have "buffer ?p' = buffer pipe"
    by (simp add: take_slot_def set_flag_def)
  then have "in_pipe pipe = add_mset (buffer pipe ! a) (in_pipe ?p')"
    using isin by (simp add: in_pipe_def slots mset_set.remove)
  with sized fl count' show ?case
    by (simp add: quiescent_def)
qed

subsection \<open>Flag histories\<close>

lemma flag_word_snoc:
  "flag_word cur (vs @ [v]) \<longleftrightarrow> flag_word cur vs \<and> flag_transition (last (cur # vs)) v"
  by (induction vs arbitrary: cur) auto

lemma slot_stores_snoc:
  "slot_stores s (stores @ [(a, v)]) =
     (if a = s then slot_stores s stores @ [v] else slot_stores s stores)"
  by (simp add: slot_stores_def)

lemma flag_history_set_flag:
  assumes "flag_history_ok pipe" and "a < TS_PIPE_SIZE" and "length (flags pipe) = TS_PIPE_SIZE"
    and "flag_transition (flags pipe ! a) v"
  shows "flag_history_ok (set_flag pipe a v)"
  unfolding flag_history_ok_def
proof (intro allI impI)
  fix s assume s: "s < TS_PIPE_SIZE"
  from assms(1) s have old: "flag_word TS_PIPE_WRITABLE (slot_stores s (flagStores pipe))"
    "last (TS_PIPE_WRITABLE # slot_stores s (flagStores pipe)) = flags pipe ! s"
    by (simp_all add: flag_history_ok_def)
  show "flag_word TS_PIPE_WRITABLE (slot_stores s (flagStores (set_flag pipe a v))) \<and>
      last (TS_PIPE_WRITABLE # slot_stores s (flagStores (set_flag pipe a v))) =
        flags (set_flag pipe a v) ! s"
  proof (cases "a = s")
    case True
    with old assms(2-4) show ?thesis
      by (simp add: set_flag_def slot_stores_snoc flag_word_snoc)
  next
    case False
    with old show ?thesis
      by (simp add: set_flag_def slot_stores_snoc)
  qed
qed

lemma flag_history_ok_fields [simp]:
  "flag_history_ok (pipe\<lparr>buffer := b\<rparr>) = flag_history_ok pipe"
  "flag_history_ok (pipe\<lparr>writeIndex := w\<rparr>) = flag_history_ok pipe"
  "flag_history_ok (pipe\<lparr>readIndex := r\<rparr>) = flag_history_ok pipe"
  "flag_history_ok (pipe\<lparr>readCount := c\<rparr>) = flag_history_ok pipe"
  by (simp_all add: flag_history_ok_def)

lemma flag_history_take_slot:
  assumes "flag_history_ok pipe" and "a < TS_PIPE_SIZE" and "length (flags pipe) = TS_PIPE_SIZE"
    and "flags pipe ! a = TS_PIPE_READABLE"
  shows "flag_history_ok (take_slot pipe a)"
proof -
  have 1: "flag_history_ok (set_flag pipe a TS_PIPE_INVALID)"
    using assms by (intro flag_history_set_flag) (simp_all add: flag_transition_def)
  have 2: "flags (set_flag pipe a TS_PIPE_INVALID) ! a = TS_PIPE_INVALID"
    "length (flags (set_flag pipe a TS_PIPE_INVALID)) = TS_PIPE_SIZE"
    using assms(2,3) by (simp_all add: set_flag_def)
  show ?thesis
    unfolding take_slot_def
    by (rule flag_history_set_flag [OF 1 assms(2) 2(2)]) (simp add: 2(1) flag_transition_def)
qed

lemma effect_history:
  assumes "effect pipe ws ds pipe'" and "pipe_sized pipe" and "flag_history_ok pipe"
  shows "flag_history_ok pipe'"
  using assms
proof (induction rule: effect.induct)
  case (put a pipe v)
  have "flag_history_ok (set_flag (pipe\<lparr>buffer := (buffer pipe)[a := v]\<rparr>) a TS_PIPE_READABLE)"
    using put by (intro flag_history_set_flag) (simp_all add: flag_transition_def pipe_sized_def)
  then show ?case by simp
next
  case (take_back a pipe)
  then have "flag_history_ok (take_slot pipe a)"
    by (intro flag_history_take_slot) (simp_all add: pipe_sized_def)
  then show ?case by simp
next
  case (take_front a pipe)
  then have "flag_history_ok (take_slot pipe a)"
    by (intro flag_history_take_slot) (simp_all add: pipe_sized_def)
  then show ?case by simp
qed simp_all

subsection \<open>Runs\<close>

lemma written_Cons: "written (ev # evs) = written [ev] @ written evs"
  by (cases ev) simp_all

lemma delivered_Cons: "delivered (ev # evs) = delivered [ev] @ delivered evs"
  by (cases ev) simp_all

lemma run_Cons_SomeD:
  assumes "run (c # cs) pipe = Some (Inr (evs, q))"
  obtains ev pipe' evs' where "exec_call c pipe = Some (Inr (ev, pipe'))"
    and "run cs pipe' = Some (Inr (evs', q))" and "evs = ev # evs'"
  using assms by (auto split: option.splits sum.splits)

lemma run_invariant:
  assumes "run cs pipe = Some (Inr (evs, q))" and "quiescent pipe" and "flag_history_ok pipe"
  shows "quiescent q \<and> flag_history_ok q \<and>
    in_pipe pipe + mset (written evs) = in_pipe q + mset (delivered evs)"
  using assms
proof (induction cs arbitrary: pipe evs)
  case Nil
  then show ?case by simp
next
  case (Cons c cs)
  from Cons.prems(1) obtain ev pipe' evs' where
    ex: "exec_call c pipe = Some (Inr (ev, pipe'))"
    and rest: "run cs pipe' = Some (Inr (evs', q))" and evs: "evs = ev # evs'"
    by (rule run_Cons_SomeD)
  from Cons.prems(2) have sized: "pipe_sized pipe"
    by (simp add: quiescent_def)
  have eff: "effect pipe (written [ev]) (delivered [ev]) pipe'"
    by (rule exec_call_effect [OF ex sized])
  from effect_quiescent [OF eff Cons.prems(2)] have q': "quiescent pipe'"
    and bal: "in_pipe pipe + mset (written [ev]) = in_pipe pipe' + mset (delivered [ev])"
    by simp_all
  have h': "flag_history_ok pipe'"
    by (rule effect_history [OF eff sized Cons.prems(3)])
  from Cons.IH [OF rest q' h'] have "quiescent q" "flag_history_ok q"
    and bal': "in_pipe pipe' + mset (written evs') = in_pipe q + mset (delivered evs')"
    by simp_all
  moreover have "in_pipe pipe + mset (written evs) = in_pipe q + mset (delivered evs)"
  proof -
    have "in_pipe pipe + mset (written evs) =
        (in_pipe pipe + mset (written [ev])) + mset (written evs')"
      by (subst evs, subst written_Cons) simp
    also have "\<dots> = (in_pipe pipe' + mset (written evs')) + mset (delivered [ev])"
      by (simp only: bal ac_simps)
    also have "\<dots> = in_pipe q + (mset (delivered [ev]) + mset (delivered evs'))"
      by (simp only: bal' ac_simps)
    also have "\<dots> = in_pipe q + mset (delivered evs)"
      by (subst evs, subst (2) delivered_Cons) simp
    finally show ?thesis .
  qed
  ultimately show ?case by simp
qed

lemma run_take:
  assumes "run cs pipe = Some (Inr (evs, q))"
  shows "\<exists>q'. run (take n cs) pipe = Some (Inr (take n evs, q'))"
  using assms
proof (induction cs arbitrary: pipe evs n)
  case Nil
  then show ?case by auto
next
  case (Cons c cs)
  from Cons.prems obtain ev pipe' evs' where
    ex: "exec_call c pipe = Some (Inr (ev, pipe'))"
    and rest: "run cs pipe' = Some (Inr (evs', q))" and evs: "evs = ev # evs'"
    by (rule run_Cons_SomeD)
  show ?case
  proof (cases n)
    case 0
    then show ?thesis by simp
  next
    case (Suc m)
    from Cons.IH [OF rest, of m] obtain q' where
      "run (take m cs) pipe' = Some (Inr (take m evs', q'))" by blast
    with ex evs Suc show ?thesis by simp
  qed
qed

lemma quiescent_fresh: "quiescent fresh_pipe"
  by (simp add: quiescent_def pipe_sized_def fresh_pipe_def tsPipeInit_def zero_pipe_def
      readable_slots_def TS_PIPE_WRITABLE_def TS_PIPE_READABLE_def)

lemma flag_history_fresh: "flag_history_ok fresh_pipe"
  by (simp add: flag_history_ok_def fresh_pipe_def tsPipeInit_def zero_pipe_def
      slot_stores_def TS_PIPE_WRITABLE_def)

lemma readable_slots_fresh: "readable_slots fresh_pipe = {}"
  by (auto simp: fresh_pipe_def tsPipeInit_def zero_pipe_def readable_slots_def
      TS_PIPE_READABLE_def)

lemma in_pipe_fresh: "in_pipe fresh_pipe = {#}"
  by (simp add: in_pipe_def readable_slots_fresh)

subsection \<open>Reads that succeed at the first attempt, and a concrete run\<close>

lemma tsPipeWriterTryReadFront_loop_first:
  assumes "pipe_sized pipe" and "writeIdx - readCount pipe \<noteq> 0"
    and "flags pipe ! unat (f - 1 AND TS_PIPE_MASK) = TS_PIPE_READABLE"
  shows "tsPipeWriterTryReadFront_loop pipe writeIdx f =
     Inr (Break (f - 1 AND TS_PIPE_MASK)
       (set_flag pipe (unat (f - 1 AND TS_PIPE_MASK)) TS_PIPE_INVALID))"
  using assms
  by (subst tsPipeWriterTryReadFront_loop.simps) (simp add: Let_def flags_cmpxchg_slot)

lemma tsPipeWriterTryReadFront_first:
  assumes "pipe_sized pipe" and "writeIndex pipe - readCount pipe \<noteq> 0"
    and "flags pipe ! unat (writeIndex pipe - 1 AND TS_PIPE_MASK) = TS_PIPE_READABLE"
  shows "tsPipeWriterTryReadFront pipe out =
     Inr (1, buffer pipe ! unat (writeIndex pipe - 1 AND TS_PIPE_MASK),
       (take_slot pipe (unat (writeIndex pipe - 1 AND TS_PIPE_MASK)))
         \<lparr>writeIndex := writeIndex pipe - 1\<rparr>)"
proof -
  let ?a = "writeIndex pipe - 1 AND TS_PIPE_MASK"
  have sized: "pipe_sized (set_flag pipe (unat ?a) TS_PIPE_INVALID)"
    using assms(1) by simp
  show ?thesis
    by (simp add: tsPipeWriterTryReadFront_def Let_def
        tsPipeWriterTryReadFront_loop_first [OF assms]
        buffer_load_slot [OF sized] flags_store_slot [OF sized] take_slot_def)
      (simp add: set_flag_def)
qed

lemma tsPipeReaderTryReadBack_empty:
  assumes "writeIndex pipe - readCount pipe = 0"
  shows "tsPipeReaderTryReadBack pipe out = Some (Inr (0, out, pipe))"
  using assms
  by (simp add: tsPipeReaderTryReadBack_def)
    (subst tsPipeReaderTryReadBack_loop.simps, simp)

lemma tsPipeReaderTryReadBack_first:
  assumes "pipe_sized pipe" and "writeIndex pipe - readCount pipe \<noteq> 0"
    and "readCount pipe < writeIndex pipe"
    and "flags pipe ! unat (readCount pipe AND TS_PIPE_MASK) = TS_PIPE_READABLE"
  shows "tsPipeReaderTryReadBack pipe out =
     Some (Inr (1, buffer pipe ! unat (readCount pipe AND TS_PIPE_MASK),
       (take_slot pipe (unat (readCount pipe AND TS_PIPE_MASK)))
         \<lparr>readCount := readCount pipe + 1\<rparr>))"
proof -
  let ?a = "readCount pipe AND TS_PIPE_MASK"
  have loop: "tsPipeReaderTryReadBack_loop pipe (readCount pipe) (readCount pipe) =
      Some (Inr (Break ?a (set_flag pipe (unat ?a) TS_PIPE_INVALID)))"
    using assms
    by (subst tsPipeReaderTryReadBack_loop.simps)
      (simp add: Let_def flags_cmpxchg_slot not_le [symmetric])
  have sized: "pipe_sized ((set_flag pipe (unat ?a) TS_PIPE_INVALID)
      \<lparr>readCount := readCount (set_flag pipe (unat ?a) TS_PIPE_INVALID) + 1\<rparr>)"
    using assms(1) by (simp add: pipe_sized_def set_flag_def)
  show ?thesis
    by (simp add: tsPipeReaderTryReadBack_def Let_def loop
        buffer_load_slot [OF sized] flags_store_slot [OF sized] take_slot_def)
      (simp add: set_flag_def)
qed

lemma run_scenario:
  "\<exists>pipe. run [WriteFront 10, WriteFront 20, WriteFront 30,
          ReadFront o1, ReadFront o2, ReadBack o3, ReadBack o4] fresh_pipe =
     Some (Inr ([WriteFrontRet 10 1, WriteFrontRet 20 1, WriteFrontRet 30 1,
                 ReadFrontRet 1 30, ReadFrontRet 1 20, ReadBackRet 1 10, ReadBackRet 0 o4],
                pipe)) \<and>
     writeIndex pipe = 1 \<and> readCount pipe = 1 \<and>
     flagStores pipe =
       [(0, TS_PIPE_READABLE), (1, TS_PIPE_READABLE), (2, TS_PIPE_READABLE),
        (2, TS_PIPE_INVALID), (2, TS_PIPE_WRITABLE),
        (1, TS_PIPE_INVALID), (1, TS_PIPE_WRITABLE),
        (0, TS_PIPE_INVALID), (0, TS_PIPE_WRITABLE)]"
  by (simp add: tsPipeWriterTryWriteFront_eq tsPipeWriterTryReadFront_first
      tsPipeReaderTryReadBack_first tsPipeReaderTryReadBack_empty
      pipe_sized_def fresh_pipe_def tsPipeInit_def zero_pipe_def set_flag_def take_slot_def
      TS_PIPE_SIZE_eq TS_PIPE_MASK_eq TS_PIPE_WRITABLE_def TS_PIPE_READABLE_def
      TS_PIPE_INVALID_def)

lemma written_append: "written (evs @ evs') = written evs @ written evs'"
  by (induction evs rule: written.induct) simp_all

lemma delivered_append: "delivered (evs @ evs') = delivered evs @ delivered evs'"
  by (induction evs rule: delivered.induct) simp_all

subsection \<open>Filling a fresh pipe\<close>

lemma filled_Nil: "filled [] = fresh_pipe"
  by (simp add: filled_def fresh_pipe_def tsPipeInit_def zero_pipe_def TS_PIPE_WRITABLE_def)

lemma pipe_sized_filled: "length vs \<le> TS_PIPE_SIZE \<Longrightarrow> pipe_sized (filled vs)"
  by (simp add: filled_def pipe_sized_def)

lemma slot_of_nat:
  assumes "k < TS_PIPE_SIZE"
  shows "unat ((of_nat k :: u32) AND TS_PIPE_MASK) = k"
proof -
  from assms have k: "k < 2 ^ 9" by (simp add: TS_PIPE_SIZE_eq)
  then have u: "unat (of_nat k :: u32) = k"
    by (simp add: unat_of_nat)
  then have "(of_nat k :: u32) < 2 ^ 9"
    using k by (simp add: word_less_nat_alt)
  then have "(of_nat k :: u32) AND mask 9 = of_nat k"
    by (rule less_mask_eq)
  moreover have "TS_PIPE_MASK = mask 9"
    by (simp add: TS_PIPE_MASK_eq mask_eq_exp_minus_1)
  ultimately show ?thesis
    using u by simp
qed

lemma write_filled:
  assumes "length vs < TS_PIPE_SIZE"
  shows "tsPipeWriterTryWriteFront (filled vs) v = Inr (1, filled (vs @ [v]))"
proof -
  let ?k = "length vs"
  have sized: "pipe_sized (filled vs)"
    using assms by (simp add: pipe_sized_filled)
  have slot: "unat (writeIndex (filled vs) AND TS_PIPE_MASK) = ?k"
    using slot_of_nat [OF assms] by (simp add: filled_def)
  have flag: "flags (filled vs) ! ?k = TS_PIPE_WRITABLE"
    using assms by (simp add: filled_def nth_append)
  from assms obtain m where m: "TS_PIPE_SIZE - ?k = Suc m"
    by (cases "TS_PIPE_SIZE - ?k") simp_all
  then have m': "TS_PIPE_SIZE - Suc ?k = m" by simp
  show ?thesis
    by (simp add: tsPipeWriterTryWriteFront_eq [OF sized] slot flag)
      (simp add: filled_def set_flag_def m m' list_update_append replicate_append_same)
qed

lemma run_append:
  "run (cs @ ds) pipe =
     (case run cs pipe of
        None \<Rightarrow> None
      | Some (Inl e) \<Rightarrow> Some (Inl e)
      | Some (Inr (evs, q)) \<Rightarrow>
          (case run ds q of
             None \<Rightarrow> None
           | Some (Inl e) \<Rightarrow> Some (Inl e)
           | Some (Inr (evs', q')) \<Rightarrow> Some (Inr (evs @ evs', q'))))"
  by (induction cs arbitrary: pipe) (auto split: option.splits sum.splits)

lemma run_writes:
  assumes "length vs \<le> TS_PIPE_SIZE"
  shows "run (map WriteFront vs) fresh_pipe =
     Some (Inr (map (\<lambda>v. WriteFrontRet v 1) vs, filled vs))"
  using assms
proof (induction vs rule: rev_induct)
  case Nil
  then show ?case by (simp add: filled_Nil)
next
  case (snoc v vs)
  then have "run (map WriteFront vs) fresh_pipe =
      Some (Inr (map (\<lambda>v. WriteFrontRet v 1) vs, filled vs))"
    and "length vs < TS_PIPE_SIZE"
    by simp_all
  then show ?case
    by (simp add: run_append write_filled)
qed

lemma full_pipe_steps:
  assumes "length vs = TS_PIPE_SIZE"
  shows "\<exists>pipe. run [WriteFront v, ReadBack out, WriteFront v'] (filled vs) =
     Some (Inr ([WriteFrontRet v 0, ReadBackRet 1 (hd vs), WriteFrontRet v' 1], pipe))"
proof -
  from assms have sized: "pipe_sized (filled vs)"
    by (simp add: pipe_sized_filled)
  from assms have ne: "vs \<noteq> []"
    by (auto simp: TS_PIPE_SIZE_eq)
  have wi: "writeIndex (filled vs) = 512" "readCount (filled vs) = 0"
    using assms by (simp_all add: filled_def TS_PIPE_SIZE_eq fresh_pipe_def tsPipeInit_def)
  have flag0: "flags (filled vs) ! 0 = TS_PIPE_READABLE"
    using assms by (simp add: filled_def nth_append TS_PIPE_SIZE_eq)
  have buf0: "buffer (filled vs) ! 0 = hd vs"
    using ne by (simp add: filled_def nth_append hd_conv_nth)
  have full: "tsPipeWriterTryWriteFront (filled vs) v = Inr (0, filled vs)"
    using flag_values_distinct
    by (simp add: tsPipeWriterTryWriteFront_eq [OF sized] wi TS_PIPE_MASK_eq flag0)
  have rd: "tsPipeReaderTryReadBack (filled vs) out =
      Some (Inr (1, hd vs, (take_slot (filled vs) 0)\<lparr>readCount := 1\<rparr>))"
    using tsPipeReaderTryReadBack_first [OF sized, of out]
    by (simp add: wi TS_PIPE_MASK_eq flag0 buf0)
  let ?drained = "(take_slot (filled vs) 0)\<lparr>readCount := 1\<rparr>"
  have sized': "pipe_sized ?drained"
    using sized by (simp add: pipe_sized_def take_slot_def set_flag_def)
  have "flags ?drained ! unat (writeIndex ?drained AND TS_PIPE_MASK) = TS_PIPE_WRITABLE"
    using assms
    by (simp add: take_slot_def set_flag_def wi TS_PIPE_MASK_eq)
      (simp add: filled_def TS_PIPE_SIZE_eq)
  then have again: "\<exists>pipe. tsPipeWriterTryWriteFront ?drained v' = Inr (1, pipe)"
    by (simp add: tsPipeWriterTryWriteFront_eq [OF sized'])
  then obtain pipe where "tsPipeWriterTryWriteFront ?drained v' = Inr (1, pipe)" ..
  with full rd show ?thesis by simp
qed

section \<open>The claims\<close>

text \<open>
  Claim C1. \<^verbatim>\<open>tsPipeInit\<close> zeroes the buffer and the three counters of any pipe, and
  it leaves \<^verbatim>\<open>flags[]\<close> as it finds it: called on a pipe whose slot 0 is still marked
  readable, it returns a pipe whose slot 0 is marked readable, not writable, and the
  first write to that pipe is refused.
\<close>

theorem C1_tsPipeInit_leaves_flags:
  "buffer (tsPipeInit pipe) = replicate TS_PIPE_SIZE 0 \<and>
   writeIndex (tsPipeInit pipe) = 0 \<and> readIndex (tsPipeInit pipe) = 0 \<and>
   readCount (tsPipeInit pipe) = 0 \<and>
   flags (tsPipeInit pipe) = flags pipe \<and>
   flags (tsPipeInit (zero_pipe\<lparr>flags := (flags zero_pipe)[0 := TS_PIPE_READABLE]\<rparr>)) ! 0 =
     TS_PIPE_READABLE \<and>
   TS_PIPE_READABLE \<noteq> TS_PIPE_WRITABLE \<and>
   tsPipeWriterTryWriteFront
       (tsPipeInit (zero_pipe\<lparr>flags := (flags zero_pipe)[0 := TS_PIPE_READABLE]\<rparr>)) v =
     Inr (0, tsPipeInit (zero_pipe\<lparr>flags := (flags zero_pipe)[0 := TS_PIPE_READABLE]\<rparr>))"
proof -
  let ?used = "zero_pipe\<lparr>flags := (flags zero_pipe)[0 := TS_PIPE_READABLE]\<rparr>"
  have sized: "pipe_sized (tsPipeInit ?used)"
    by (simp add: pipe_sized_def tsPipeInit_def zero_pipe_def)
  have "tsPipeWriterTryWriteFront (tsPipeInit ?used) v = Inr (0, tsPipeInit ?used)"
    by (simp add: tsPipeWriterTryWriteFront_eq [OF sized])
      (simp add: tsPipeInit_def zero_pipe_def TS_PIPE_SIZE_eq TS_PIPE_MASK_eq
        TS_PIPE_READABLE_def TS_PIPE_WRITABLE_def)
  then show ?thesis
    by (simp add: tsPipeInit_def zero_pipe_def TS_PIPE_SIZE_eq TS_PIPE_READABLE_def
        TS_PIPE_WRITABLE_def)
qed

text \<open>
  Claim C2. In every sequence of calls on a freshly initialised pipe, run one after the
  other, the values given out by the successful reads up to any point (tail reads and
  front reads together, counted with multiplicity) are among the values of the
  successful writes up to that point, so that no written value is given out twice; and
  the value a successful tail read returns was passed to a successful write before it.
\<close>

theorem C2_delivered_were_written:
  assumes "run cs fresh_pipe = Some (Inr (evs, pipe))"
  shows "(\<forall>n. mset (delivered (take n evs)) \<subseteq># mset (written (take n evs))) \<and>
    (\<forall>i v. i < length evs \<and> evs ! i = ReadBackRet 1 v \<longrightarrow> v \<in> set (written (take i evs)))"
proof -
  have prefix: "mset (delivered (take n evs)) \<subseteq># mset (written (take n evs))" for n
  proof -
    from run_take [OF assms, of n] obtain q where
      "run (take n cs) fresh_pipe = Some (Inr (take n evs, q))" by blast
    from run_invariant [OF this quiescent_fresh flag_history_fresh]
    have "mset (written (take n evs)) = in_pipe q + mset (delivered (take n evs))"
      by (simp add: in_pipe_fresh)
    then show ?thesis by simp
  qed
  have "v \<in> set (written (take i evs))"
    if i: "i < length evs" and ev: "evs ! i = ReadBackRet 1 v" for i v
  proof -
    from i ev have "take (Suc i) evs = take i evs @ [ReadBackRet 1 v]"
      by (simp add: take_Suc_conv_app_nth)
    then have "delivered (take (Suc i) evs) = delivered (take i evs) @ [v]"
      and "written (take (Suc i) evs) = written (take i evs)"
      by (simp_all add: delivered_append written_append)
    with prefix [of "Suc i"] have "add_mset v (mset (delivered (take i evs))) \<subseteq>#
        mset (written (take i evs))"
      by simp
    then have "v \<in># mset (written (take i evs))"
      by (rule mset_subset_eq_insertD [THEN conjunct1])
    then show ?thesis by simp
  qed
  with prefix show ?thesis by blast
qed

theorem C2_delivered_were_written_witness:
  "\<exists>pipe. run [WriteFront 10, WriteFront 20, WriteFront 30,
          ReadFront 0, ReadFront 0, ReadBack 0, ReadBack 0] fresh_pipe =
     Some (Inr ([WriteFrontRet 10 1, WriteFrontRet 20 1, WriteFrontRet 30 1,
                 ReadFrontRet 1 30, ReadFrontRet 1 20, ReadBackRet 1 10, ReadBackRet 0 0],
                pipe)) \<and>
     mset (delivered (take 6 [WriteFrontRet 10 1, WriteFrontRet 20 1, WriteFrontRet 30 1,
                 ReadFrontRet 1 30, ReadFrontRet 1 20, ReadBackRet 1 10, ReadBackRet 0 0]))
       \<subseteq># mset (written (take 6 [WriteFrontRet 10 1, WriteFrontRet 20 1, WriteFrontRet 30 1,
                 ReadFrontRet 1 30, ReadFrontRet 1 20, ReadBackRet 1 10, ReadBackRet 0 0])) \<and>
     10 \<in> set (written (take 5 [WriteFrontRet 10 1, WriteFrontRet 20 1, WriteFrontRet 30 1,
                 ReadFrontRet 1 30, ReadFrontRet 1 20, ReadBackRet 1 10, ReadBackRet 0 0]))"
proof -
  from run_scenario [of 0 0 0 0] obtain pipe where
    r: "run [WriteFront 10, WriteFront 20, WriteFront 30,
          ReadFront 0, ReadFront 0, ReadBack 0, ReadBack 0] fresh_pipe =
     Some (Inr ([WriteFrontRet 10 1, WriteFrontRet 20 1, WriteFrontRet 30 1,
                 ReadFrontRet 1 30, ReadFrontRet 1 20, ReadBackRet 1 10, ReadBackRet 0 0],
                pipe))"
    by blast
  from C2_delivered_were_written [OF r] have
    "mset (delivered (take 6 [WriteFrontRet 10 1, WriteFrontRet 20 1, WriteFrontRet 30 1,
                 ReadFrontRet 1 30, ReadFrontRet 1 20, ReadBackRet 1 10, ReadBackRet 0 0]))
       \<subseteq># mset (written (take 6 [WriteFrontRet 10 1, WriteFrontRet 20 1, WriteFrontRet 30 1,
                 ReadFrontRet 1 30, ReadFrontRet 1 20, ReadBackRet 1 10, ReadBackRet 0 0]))"
    and "10 \<in> set (written (take 5 [WriteFrontRet 10 1, WriteFrontRet 20 1, WriteFrontRet 30 1,
                 ReadFrontRet 1 30, ReadFrontRet 1 20, ReadBackRet 1 10, ReadBackRet 0 0]))"
    by (blast, simp)
  with r show ?thesis by blast
qed

text \<open>
  Claim C3. After every sequence of the three operations on a freshly initialised pipe,
  run one after the other, the difference \<open>writeIndex - readCount\<close> of the two 32-bit
  counters, read as an unsigned number, is at most \<open>TS_PIPE_SIZE\<close> (and it is at least 0,
  being unsigned): the pipe never overruns.
\<close>

theorem C3_no_overrun:
  assumes "run cs fresh_pipe = Some (Inr (evs, pipe))"
  shows "0 \<le> unat (writeIndex pipe - readCount pipe) \<and>
    unat (writeIndex pipe - readCount pipe) \<le> TS_PIPE_SIZE"
proof -
  from run_invariant [OF assms quiescent_fresh flag_history_fresh]
  have "quiescent pipe" by simp
  then have "unat (writeIndex pipe - readCount pipe) = card (readable_slots pipe)"
    by (simp add: quiescent_def)
  with card_readable_slots [of pipe] show ?thesis by simp
qed

theorem C3_no_overrun_witness:
  "\<exists>pipe. run [WriteFront 10, WriteFront 20, WriteFront 30,
          ReadFront 0, ReadFront 0, ReadBack 0, ReadBack 0] fresh_pipe =
     Some (Inr ([WriteFrontRet 10 1, WriteFrontRet 20 1, WriteFrontRet 30 1,
                 ReadFrontRet 1 30, ReadFrontRet 1 20, ReadBackRet 1 10, ReadBackRet 0 0],
                pipe)) \<and>
     0 \<le> unat (writeIndex pipe - readCount pipe) \<and>
     unat (writeIndex pipe - readCount pipe) \<le> TS_PIPE_SIZE"
proof -
  from run_scenario [of 0 0 0 0] obtain pipe where
    r: "run [WriteFront 10, WriteFront 20, WriteFront 30,
          ReadFront 0, ReadFront 0, ReadBack 0, ReadBack 0] fresh_pipe =
     Some (Inr ([WriteFrontRet 10 1, WriteFrontRet 20 1, WriteFrontRet 30 1,
                 ReadFrontRet 1 30, ReadFrontRet 1 20, ReadBackRet 1 10, ReadBackRet 0 0],
                pipe))"
    by blast
  from C3_no_overrun [OF r] r show ?thesis by blast
qed

text \<open>
  Claim C4. On a freshly initialised pipe, \<open>TS_PIPE_SIZE\<close> writes in a row all return 1,
  the next write returns 0, a tail read then returns 1 (with the first value written),
  and the write after it returns 1 again.
\<close>

theorem C4_fill_then_drain_one:
  assumes "length vs = TS_PIPE_SIZE"
  shows "\<exists>pipe. run (map WriteFront vs @ [WriteFront v, ReadBack out, WriteFront v'])
        fresh_pipe =
     Some (Inr (map (\<lambda>v. WriteFrontRet v 1) vs @
                [WriteFrontRet v 0, ReadBackRet 1 (hd vs), WriteFrontRet v' 1], pipe))"
proof -
  from assms have "run (map WriteFront vs) fresh_pipe =
      Some (Inr (map (\<lambda>v. WriteFrontRet v 1) vs, filled vs))"
    by (simp add: run_writes)
  moreover from full_pipe_steps [OF assms, of v out v'] obtain pipe where
    "run [WriteFront v, ReadBack out, WriteFront v'] (filled vs) =
     Some (Inr ([WriteFrontRet v 0, ReadBackRet 1 (hd vs), WriteFrontRet v' 1], pipe))" ..
  ultimately show ?thesis
    by (simp add: run_append)
qed

theorem C4_fill_then_drain_one_witness:
  "length (replicate TS_PIPE_SIZE (7 :: TSpipedata)) = TS_PIPE_SIZE \<and>
   (\<exists>pipe. run (map WriteFront (replicate TS_PIPE_SIZE 7) @
                [WriteFront 8, ReadBack 0, WriteFront 9]) fresh_pipe =
     Some (Inr (map (\<lambda>v. WriteFrontRet v 1) (replicate TS_PIPE_SIZE 7) @
                [WriteFrontRet 8 0, ReadBackRet 1 7, WriteFrontRet 9 1], pipe)))"
proof -
  have h: "length (replicate TS_PIPE_SIZE (7 :: TSpipedata)) = TS_PIPE_SIZE"
    by simp
  have "hd (replicate TS_PIPE_SIZE (7 :: TSpipedata)) = 7"
    by (simp add: TS_PIPE_SIZE_eq)
  with C4_fill_then_drain_one [OF h, of 8 0 9] h show ?thesis by simp
qed

text \<open>
  Claim C5. On a freshly initialised pipe, writing 10, 20 and 30 and then reading from
  the front twice and from the back twice gives: every write returns 1, the first front
  read returns 1 with the value 30, the second returns 1 with 20, the first back read
  returns 1 with 10, and the last back read returns 0 (leaving the caller's variable as
  it was).
\<close>

theorem C5_front_read_scenario:
  "\<exists>pipe. run [WriteFront 10, WriteFront 20, WriteFront 30,
          ReadFront o1, ReadFront o2, ReadBack o3, ReadBack o4] fresh_pipe =
     Some (Inr ([WriteFrontRet 10 1, WriteFrontRet 20 1, WriteFrontRet 30 1,
                 ReadFrontRet 1 30, ReadFrontRet 1 20, ReadBackRet 1 10, ReadBackRet 0 o4],
                pipe))"
  using run_scenario [of o1 o2 o3 o4] by blast

text \<open>
  Claim C6, as amended. In every pipe reached from a fresh one by a sequence of calls, a
  write of \<open>v\<close> that returns 1, followed at once by a front read, makes the front read
  return 1 with the value \<open>v\<close>; the three counters and all flags are then what they
  were before the write, so \<^verbatim>\<open>tsPipeIsEmpty\<close> returns what it returned before the
  write: 1 only when the pipe was empty then.
\<close>

theorem C6_write_then_front_read:
  assumes "run cs fresh_pipe = Some (Inr (evs, pipe))"
    and "tsPipeWriterTryWriteFront pipe v = Inr (1, pipe1)"
  shows "\<exists>pipe2. tsPipeWriterTryReadFront pipe1 out = Inr (1, v, pipe2) \<and>
    writeIndex pipe2 = writeIndex pipe \<and> readIndex pipe2 = readIndex pipe \<and>
    readCount pipe2 = readCount pipe \<and> flags pipe2 = flags pipe \<and>
    tsPipeIsEmpty pipe2 = tsPipeIsEmpty pipe"
proof -
  from run_invariant [OF assms(1) quiescent_fresh flag_history_fresh]
  have q: "quiescent pipe" by simp
  then have sized: "pipe_sized pipe"
    and count: "unat (writeIndex pipe - readCount pipe) = card (readable_slots pipe)"
    by (simp_all add: quiescent_def)
  let ?a = "unat (writeIndex pipe AND TS_PIPE_MASK)"
  have a: "?a < length (flags pipe)" "?a < length (buffer pipe)"
    using sized slot_less [of "writeIndex pipe"] by (simp_all add: pipe_sized_def)
  from assms(2) have flag: "flags pipe ! ?a = TS_PIPE_WRITABLE"
    and pipe1: "pipe1 = (set_flag (pipe\<lparr>buffer := (buffer pipe)[?a := v]\<rparr>) ?a TS_PIPE_READABLE)
        \<lparr>writeIndex := writeIndex pipe + 1\<rparr>"
    by (auto simp: tsPipeWriterTryWriteFront_eq [OF sized] split: if_splits)
  have sized1: "pipe_sized pipe1"
    using sized by (simp add: pipe1 pipe_sized_def set_flag_def)
  have "unat (writeIndex pipe - readCount pipe + 1) = Suc (unat (writeIndex pipe - readCount pipe))"
    using count card_readable_slots [of pipe] by (simp add: unat_succ_count)
  then have ne0: "writeIndex pipe - readCount pipe + 1 \<noteq> 0"
    by (metis Zero_not_Suc unat_0)
  have eq: "writeIndex pipe + 1 - readCount pipe = writeIndex pipe - readCount pipe + 1"
    by simp
  have "writeIndex pipe + 1 - readCount pipe \<noteq> 0"
    unfolding eq by (rule ne0)
  then have nonempty: "writeIndex pipe1 - readCount pipe1 \<noteq> 0"
    by (simp add: pipe1 set_flag_def)
  have slot1: "unat (writeIndex pipe1 - 1 AND TS_PIPE_MASK) = ?a"
    by (simp add: pipe1 set_flag_def)
  have flag1: "flags pipe1 ! unat (writeIndex pipe1 - 1 AND TS_PIPE_MASK) = TS_PIPE_READABLE"
    unfolding slot1 using a by (simp add: pipe1 set_flag_def)
  have buf1: "buffer pipe1 ! ?a = v"
    using a by (simp add: pipe1 set_flag_def)
  let ?pipe2 = "(take_slot pipe1 ?a)\<lparr>writeIndex := writeIndex pipe1 - 1\<rparr>"
  have read: "tsPipeWriterTryReadFront pipe1 out = Inr (1, v, ?pipe2)"
    using tsPipeWriterTryReadFront_first [OF sized1 nonempty flag1, of out]
    by (simp add: slot1 buf1)
  have "(flags pipe)[?a := TS_PIPE_WRITABLE] = flags pipe"
    using flag by (metis list_update_id)
  then have fl: "flags ?pipe2 = flags pipe"
    by (simp add: pipe1 take_slot_def set_flag_def)
  have cnt: "writeIndex ?pipe2 = writeIndex pipe" "readIndex ?pipe2 = readIndex pipe"
    "readCount ?pipe2 = readCount pipe"
    by (simp_all add: pipe1 take_slot_def set_flag_def)
  then have "tsPipeIsEmpty ?pipe2 = tsPipeIsEmpty pipe"
    by (simp add: tsPipeIsEmpty_def)
  with read fl cnt show ?thesis by blast
qed

theorem C6_write_then_front_read_witness:
  "\<exists>pipe1 pipe2. run [] fresh_pipe = Some (Inr ([], fresh_pipe)) \<and>
     tsPipeWriterTryWriteFront fresh_pipe 2 = Inr (1, pipe1) \<and>
     tsPipeWriterTryReadFront pipe1 0 = Inr (1, 2, pipe2) \<and>
     flags pipe2 = flags fresh_pipe \<and>
     tsPipeIsEmpty pipe2 = tsPipeIsEmpty fresh_pipe \<and> tsPipeIsEmpty fresh_pipe = 1"
proof -
  have r: "run [] fresh_pipe = Some (Inr ([], fresh_pipe))"
    by simp
  have w: "tsPipeWriterTryWriteFront fresh_pipe 2 = Inr (1, filled [2])"
    using write_filled [of "[]" 2] by (simp add: filled_Nil TS_PIPE_SIZE_eq)
  have e: "tsPipeIsEmpty fresh_pipe = 1"
    by (simp add: tsPipeIsEmpty_def fresh_pipe_def tsPipeInit_def)
  from C6_write_then_front_read [OF r w, of 0] r w e show ?thesis by blast
qed

text \<open>
  Claim C6 as first stated also has \<^verbatim>\<open>tsPipeIsEmpty\<close> return true afterwards in every
  reachable pipe. It does not when an item was in the pipe before the write: on a fresh
  pipe, after a write of 1, a write of 2 and a front read (which returns 2), the query
  returns 0.
\<close>

theorem C6_is_empty_counterexample:
  "run [WriteFront 1, WriteFront 2, ReadFront 0] fresh_pipe =
     Some (Inr ([WriteFrontRet 1 1, WriteFrontRet 2 1, ReadFrontRet 1 2],
       fresh_pipe\<lparr>buffer := (buffer fresh_pipe)[0 := 1, 1 := 2],
                  flags := (flags fresh_pipe)[0 := TS_PIPE_READABLE, 1 := TS_PIPE_WRITABLE],
                  writeIndex := 1,
                  flagStores := [(0, TS_PIPE_READABLE), (1, TS_PIPE_READABLE),
                                 (1, TS_PIPE_INVALID), (1, TS_PIPE_WRITABLE)]\<rparr>)) \<and>
   tsPipeIsEmpty
      (fresh_pipe\<lparr>buffer := (buffer fresh_pipe)[0 := 1, 1 := 2],
                  flags := (flags fresh_pipe)[0 := TS_PIPE_READABLE, 1 := TS_PIPE_WRITABLE],
                  writeIndex := 1,
                  flagStores := [(0, TS_PIPE_READABLE), (1, TS_PIPE_READABLE),
                                 (1, TS_PIPE_INVALID), (1, TS_PIPE_WRITABLE)]\<rparr>) = 0"
  by (simp add: tsPipeWriterTryWriteFront_eq tsPipeWriterTryReadFront_first
      tsPipeIsEmpty_def
      pipe_sized_def fresh_pipe_def tsPipeInit_def zero_pipe_def set_flag_def take_slot_def
      TS_PIPE_SIZE_eq TS_PIPE_MASK_eq TS_PIPE_WRITABLE_def TS_PIPE_READABLE_def
      TS_PIPE_INVALID_def)

text \<open>
  Claim C7. When \<^verbatim>\<open>tsPipeWriterTryReadFront\<close> finds \<open>writeIndex - readCount = 0\<close> (which
  its loop then finds at whatever iteration it is in), it returns 0, leaves the caller's
  variable alone, and the pipe is the one it was called on but for \<open>readIndex\<close>, which
  holds \<open>readCount\<close>: \<open>writeIndex\<close>, \<open>readCount\<close>, the flags and the buffer are unchanged.
\<close>

theorem C7_front_read_empty:
  assumes "writeIndex pipe - readCount pipe = 0"
  shows "tsPipeWriterTryReadFront pipe out =
      Inr (0, out, pipe\<lparr>readIndex := readCount pipe\<rparr>) \<and>
    (\<forall>f. tsPipeWriterTryReadFront_loop pipe (writeIndex pipe) f =
      Inr (Return0 (pipe\<lparr>readIndex := readCount pipe\<rparr>)))"
proof -
  have loop: "tsPipeWriterTryReadFront_loop pipe (writeIndex pipe) f =
      Inr (Return0 (pipe\<lparr>readIndex := readCount pipe\<rparr>))" for f
    using assms by (subst tsPipeWriterTryReadFront_loop.simps) simp
  then show ?thesis
    by (simp add: tsPipeWriterTryReadFront_def)
qed

theorem C7_front_read_empty_witness:
  "writeIndex (zero_pipe\<lparr>writeIndex := 5, readIndex := 2, readCount := 5\<rparr>) -
     readCount (zero_pipe\<lparr>writeIndex := 5, readIndex := 2, readCount := 5\<rparr>) = 0 \<and>
   tsPipeWriterTryReadFront (zero_pipe\<lparr>writeIndex := 5, readIndex := 2, readCount := 5\<rparr>) 9 =
     Inr (0, 9, zero_pipe\<lparr>writeIndex := 5, readIndex := 5, readCount := 5\<rparr>)"
proof -
  have h: "writeIndex (zero_pipe\<lparr>writeIndex := 5, readIndex := 2, readCount := 5\<rparr>) -
     readCount (zero_pipe\<lparr>writeIndex := 5, readIndex := 2, readCount := 5\<rparr>) = 0"
    by simp
  from C7_front_read_empty [OF h, of 9] h show ?thesis by simp
qed

text \<open>
  Claim C8. After every sequence of calls on a freshly initialised pipe, run one after the
  other, the flag of every slot holds one of the three values \<open>TS_PIPE_WRITABLE\<close>,
  \<open>TS_PIPE_READABLE\<close> and \<open>TS_PIPE_INVALID\<close>; and the values stored to it so far, in
  the order of the stores and starting from the \<open>TS_PIPE_WRITABLE\<close> of the fresh pipe,
  follow one another by the three transitions only (writable to readable, readable to in
  flight, in flight to writable), the last of them being the flag's present value.
\<close>

theorem C8_flag_history:
  assumes "run cs fresh_pipe = Some (Inr (evs, pipe))" and "s < TS_PIPE_SIZE"
  shows "(flags pipe ! s = TS_PIPE_WRITABLE \<or> flags pipe ! s = TS_PIPE_READABLE \<or>
      flags pipe ! s = TS_PIPE_INVALID) \<and>
    flags fresh_pipe ! s = TS_PIPE_WRITABLE \<and> flagStores fresh_pipe = [] \<and>
    flag_word TS_PIPE_WRITABLE (slot_stores s (flagStores pipe)) \<and>
    last (TS_PIPE_WRITABLE # slot_stores s (flagStores pipe)) = flags pipe ! s"
proof -
  from run_invariant [OF assms(1) quiescent_fresh flag_history_fresh]
  have q: "quiescent pipe" and h: "flag_history_ok pipe" by simp_all
  from q assms(2) have "flags pipe ! s = TS_PIPE_WRITABLE \<or> flags pipe ! s = TS_PIPE_READABLE"
    by (simp add: quiescent_def)
  moreover from h assms(2) have "flag_word TS_PIPE_WRITABLE (slot_stores s (flagStores pipe))"
    and "last (TS_PIPE_WRITABLE # slot_stores s (flagStores pipe)) = flags pipe ! s"
    by (simp_all add: flag_history_ok_def)
  moreover from assms(2) have "flags fresh_pipe ! s = TS_PIPE_WRITABLE"
    by (simp add: fresh_pipe_def tsPipeInit_def zero_pipe_def TS_PIPE_WRITABLE_def)
  moreover have "flagStores fresh_pipe = []"
    by (simp add: fresh_pipe_def tsPipeInit_def zero_pipe_def)
  ultimately show ?thesis by blast
qed

theorem C8_flag_history_witness:
  "\<exists>pipe. run [WriteFront 10, WriteFront 20, WriteFront 30,
          ReadFront 0, ReadFront 0, ReadBack 0, ReadBack 0] fresh_pipe =
     Some (Inr ([WriteFrontRet 10 1, WriteFrontRet 20 1, WriteFrontRet 30 1,
                 ReadFrontRet 1 30, ReadFrontRet 1 20, ReadBackRet 1 10, ReadBackRet 0 0],
                pipe)) \<and>
     (2::nat) < TS_PIPE_SIZE \<and>
     slot_stores 2 (flagStores pipe) = [TS_PIPE_READABLE, TS_PIPE_INVALID, TS_PIPE_WRITABLE] \<and>
     flag_word TS_PIPE_WRITABLE (slot_stores 2 (flagStores pipe)) \<and>
     last (TS_PIPE_WRITABLE # slot_stores 2 (flagStores pipe)) = flags pipe ! 2 \<and>
     flags pipe ! 2 = TS_PIPE_WRITABLE"
proof -
  from run_scenario [of 0 0 0 0] obtain pipe where
    r: "run [WriteFront 10, WriteFront 20, WriteFront 30,
          ReadFront 0, ReadFront 0, ReadBack 0, ReadBack 0] fresh_pipe =
     Some (Inr ([WriteFrontRet 10 1, WriteFrontRet 20 1, WriteFrontRet 30 1,
                 ReadFrontRet 1 30, ReadFrontRet 1 20, ReadBackRet 1 10, ReadBackRet 0 0],
                pipe))"
    and st: "flagStores pipe =
       [(0, TS_PIPE_READABLE), (1, TS_PIPE_READABLE), (2, TS_PIPE_READABLE),
        (2, TS_PIPE_INVALID), (2, TS_PIPE_WRITABLE),
        (1, TS_PIPE_INVALID), (1, TS_PIPE_WRITABLE),
        (0, TS_PIPE_INVALID), (0, TS_PIPE_WRITABLE)]"
    by blast
  have two: "(2::nat) < TS_PIPE_SIZE"
    by (simp add: TS_PIPE_SIZE_eq)
  have hist: "slot_stores 2 (flagStores pipe) =
      [TS_PIPE_READABLE, TS_PIPE_INVALID, TS_PIPE_WRITABLE]"
    by (simp add: st slot_stores_def)
  from C8_flag_history [OF r two]
  have "flag_word TS_PIPE_WRITABLE (slot_stores 2 (flagStores pipe))"
    and l: "last (TS_PIPE_WRITABLE # slot_stores 2 (flagStores pipe)) = flags pipe ! 2"
    by simp_all
  moreover from l have "flags pipe ! 2 = TS_PIPE_WRITABLE"
    by (simp add: hist)
  ultimately show ?thesis
    using r two hist by blast
qed

text \<open>
  Claim C10. \<open>TS_PIPE_SIZE\<close> is a power of two and \<open>TS_PIPE_MASK\<close> is one less, so a
  32-bit index masked with it is below \<open>TS_PIPE_SIZE\<close>; and on a pipe whose two arrays
  have \<open>TS_PIPE_SIZE\<close> entries, none of the three operations accesses \<^verbatim>\<open>buffer[]\<close> or
  \<^verbatim>\<open>flags[]\<close> out of bounds, whatever the counters hold.
\<close>

theorem C10_accesses_in_bounds:
  assumes "pipe_sized pipe"
  shows "TS_PIPE_SIZE = 2 ^ 9 \<and> TS_PIPE_MASK = of_nat (TS_PIPE_SIZE - 1) \<and>
    (\<forall>i. unat (i AND TS_PIPE_MASK) < TS_PIPE_SIZE) \<and>
    (\<forall>v e. tsPipeWriterTryWriteFront pipe v \<noteq> Inl e) \<and>
    (\<forall>out e. tsPipeWriterTryReadFront pipe out \<noteq> Inl e) \<and>
    (\<forall>out e. tsPipeReaderTryReadBack pipe out \<noteq> Some (Inl e))"
proof -
  have "tsPipeWriterTryWriteFront pipe v \<noteq> Inl e" for v e
    by (simp add: tsPipeWriterTryWriteFront_eq [OF assms])
  moreover have "tsPipeWriterTryReadFront pipe out \<noteq> Inl e" for out e
    using tsPipeWriterTryReadFront_cases [OF assms, of out] by auto
  moreover have "tsPipeReaderTryReadBack pipe out \<noteq> Some (Inl e)" for out e
    using tsPipeReaderTryReadBack_cases [OF _ assms, of out "Inl e"] by auto
  moreover have "TS_PIPE_SIZE = 2 ^ 9"
    by (simp add: TS_PIPE_SIZE_eq)
  ultimately show ?thesis
    using slot_less by (simp add: TS_PIPE_MASK_def)
qed

theorem C10_accesses_in_bounds_witness:
  "pipe_sized (zero_pipe\<lparr>writeIndex := 0xFFFFFFFF\<rparr>) \<and>
   unat (0xFFFFFFFF AND TS_PIPE_MASK) < TS_PIPE_SIZE \<and>
   tsPipeWriterTryWriteFront (zero_pipe\<lparr>writeIndex := 0xFFFFFFFF\<rparr>) 7 \<noteq> Inl OutOfBounds \<and>
   tsPipeWriterTryReadFront (zero_pipe\<lparr>writeIndex := 0xFFFFFFFF\<rparr>) 7 \<noteq> Inl OutOfBounds \<and>
   tsPipeReaderTryReadBack (zero_pipe\<lparr>writeIndex := 0xFFFFFFFF\<rparr>) 7 \<noteq> Some (Inl OutOfBounds)"
proof -
  have h: "pipe_sized (zero_pipe\<lparr>writeIndex := 0xFFFFFFFF\<rparr>)"
    by (simp add: pipe_sized_def zero_pipe_def)
  from C10_accesses_in_bounds [OF h] h show ?thesis by blast
qed

end
